theory Spec2Isabelle
  imports Main "HOL-Library.Signed_Division"
begin

section \<open>Dates\<close>

text \<open>
  The deadline engine of the milestone tracker (\<^verbatim>\<open>server/src/utils/businessDays.ts\<close>) works on
  JavaScript \<^verbatim>\<open>Date\<close> values through a handful of \<^verbatim>\<open>date-fns\<close> helpers. A date is modelled
  as its time value read in the local zone: an integer number of milliseconds since local midnight
  of 1 January 1970. The local zone has a fixed offset (South Africa has no daylight saving), so a
  local day is exactly \<open>msPerDay\<close> milliseconds long. Only valid dates are modelled.

  The calendar follows the definitions of the ECMAScript standard: \<open>Day\<close>, \<open>DaysInYear\<close>,
  \<open>DayFromYear\<close>, the year of a day number (the largest year whose first day is not after it),
  the week day \<open>(Day t + 4) mod 7\<close> with Sunday as 0, and the constructor
  \<^verbatim>\<open>new Date(year, monthIndex, day)\<close>, which maps years 0 to 99 to 1900 to 1999 and lets the
  month index and the day overflow into neighbouring months and years.
\<close>

type_synonym date = int

definition DaysInYear :: "int \<Rightarrow> int" where
  "DaysInYear y =
     (if y mod 4 \<noteq> 0 then 365
      else if y mod 100 \<noteq> 0 then 366
      else if y mod 400 \<noteq> 0 then 365
      else 366)"

definition DayFromYear :: "int \<Rightarrow> int" where
  "DayFromYear y =
     365 * (y - 1970) + (y - 1969) div 4 - (y - 1901) div 100 + (y - 1601) div 400"

text \<open>
  The year of a day number is computed from an estimate that is off by at most one year and then
  corrected; \<open>YearFromDay_lower\<close>, \<open>YearFromDay_upper\<close> and \<open>YearFromDay_unique\<close> below show that
  this is the year the standard specifies.
\<close>

definition YearFromDay :: "int \<Rightarrow> int" where
  "YearFromDay n =
     (let y = 1970 + (400 * n) div 146097
      in if n < DayFromYear y then y - 1
         else if DayFromYear (y + 1) \<le> n then y + 1
         else y)"


definition msPerDay :: int where
  "msPerDay = 86400000"

definition Day :: "date \<Rightarrow> int" where
  "Day t = t div msPerDay"

definition daysBeforeMonth :: "int \<Rightarrow> int \<Rightarrow> int" where
  "daysBeforeMonth y mn =
     (let leap = (if DaysInYear y = 366 then 1 else 0)
      in if mn = 0 then 0
         else if mn = 1 then 31
         else if mn = 2 then 59 + leap
         else if mn = 3 then 90 + leap
         else if mn = 4 then 120 + leap
         else if mn = 5 then 151 + leap
         else if mn = 6 then 181 + leap
         else if mn = 7 then 212 + leap
         else if mn = 8 then 243 + leap
         else if mn = 9 then 273 + leap
         else if mn = 10 then 304 + leap
         else 334 + leap)"

definition MakeFullYear :: "int \<Rightarrow> int" where
  "MakeFullYear year = (if 0 \<le> year \<and> year \<le> 99 then 1900 + year else year)"

definition newDate :: "int \<Rightarrow> int \<Rightarrow> int \<Rightarrow> date" where
  "newDate year month day =
     (let yr = MakeFullYear year;
          ym = yr + month div 12;
          mn = month mod 12
      in (DayFromYear ym + daysBeforeMonth ym mn + day - 1) * msPerDay)"

text \<open>The helpers of \<^verbatim>\<open>date-fns\<close> that the module imports.\<close>

definition startOfDay :: "date \<Rightarrow> date" where
  "startOfDay t = Day t * msPerDay"

definition addDays :: "date \<Rightarrow> int \<Rightarrow> date" where
  "addDays t amount = t + amount * msPerDay"

definition getDay :: "date \<Rightarrow> int" where
  "getDay t = (Day t + 4) mod 7"

definition getYear :: "date \<Rightarrow> int" where
  "getYear t = YearFromDay (Day t)"

definition isWeekend :: "date \<Rightarrow> bool" where
  "isWeekend t = (let day = getDay t in day = 0 \<or> day = 6)"

definition isBefore :: "date \<Rightarrow> date \<Rightarrow> bool" where
  "isBefore t dateToCompare = (t < dateToCompare)"

definition isAfter :: "date \<Rightarrow> date \<Rightarrow> bool" where
  "isAfter t dateToCompare = (t > dateToCompare)"

definition isSameDay :: "date \<Rightarrow> date \<Rightarrow> bool" where
  "isSameDay laterDate earlierDate = (startOfDay laterDate = startOfDay earlierDate)"

section \<open>Public holidays\<close>

text \<open>
  \<^verbatim>\<open>getEasterSunday\<close> is the anonymous Gregorian algorithm as the source writes it:
  \<^verbatim>\<open>Math.floor(x / y)\<close> is \<open>div\<close> and JavaScript's \<^verbatim>\<open>%\<close>, whose result has the sign of the
  dividend, is \<open>smod\<close>.
\<close>

definition getEasterSunday :: "int \<Rightarrow> date" where
  "getEasterSunday year =
     (let a = year smod 19;
          b = year div 100;
          c = year smod 100;
          d = b div 4;
          e = b smod 4;
          f = (b + 8) div 25;
          g = (b - f + 1) div 3;
          h = (19 * a + b - d - g + 15) smod 30;
          i = c div 4;
          k = c smod 4;
          l = (32 + 2 * e + 2 * i - h - k) smod 7;
          m = (a + 11 * h + 22 * l) div 451;
          month = (h + l - 7 * m + 114) div 31;
          day = ((h + l - 7 * m + 114) smod 31) + 1
      in newDate year (month - 1) day)"

definition getGoodFriday :: "int \<Rightarrow> date" where
  "getGoodFriday year = (let easter = getEasterSunday year in addDays easter (- 2))"

definition getFamilyDay :: "int \<Rightarrow> date" where
  "getFamilyDay year = (let goodFriday = getGoodFriday year in addDays goodFriday 1)"

text \<open>
  The fixed holidays as (month index, day) pairs in the order of the source. \<open>observed\<close> is the body
  of the loop over them: a date that falls on a Sunday is replaced by the following Monday before
  it is pushed.
\<close>

definition fixedHolidays :: "(int \<times> int) list" where
  "fixedHolidays =
     [(0, 1), (2, 21), (3, 27), (4, 1), (5, 16), (7, 9), (8, 24), (11, 16), (11, 25), (11, 26)]"

definition observed :: "int \<Rightarrow> int \<times> int \<Rightarrow> date" where
  "observed year holiday =
     (let date = newDate year (fst holiday) (snd holiday);
          date = (if getDay date = 0 then addDays date 1 else date)
      in startOfDay date)"

definition getSAPublicHolidays :: "int \<Rightarrow> date list" where
  "getSAPublicHolidays year =
     (let holidays = map (observed year) fixedHolidays;
          goodFriday = getGoodFriday year;
          familyDay = getFamilyDay year
      in holidays @ [startOfDay goodFriday] @ [startOfDay familyDay])"

definition isPublicHoliday :: "date \<Rightarrow> bool" where
  "isPublicHoliday date =
     (let year = getYear date;
          holidays = getSAPublicHolidays year;
          checkDate = startOfDay date
      in list_ex (\<lambda>holiday. isSameDay holiday checkDate) holidays)"

definition isBusinessDay :: "date \<Rightarrow> bool" where
  "isBusinessDay date = (\<not> isWeekend date \<and> \<not> isPublicHoliday date)"


section \<open>Business-day arithmetic\<close>

text \<open>
  The \<^verbatim>\<open>while\<close> loop of \<^verbatim>\<open>addBusinessDays\<close>. Its termination is proved further down, once it
  is known that a business day follows every date.
\<close>

function addBusinessDaysLoop :: "date \<Rightarrow> int \<Rightarrow> int \<Rightarrow> date" where
  "addBusinessDaysLoop currentDate daysAdded businessDays =
     (if daysAdded < businessDays
      then addBusinessDaysLoop (addDays currentDate 1)
             (if isBusinessDay (addDays currentDate 1) then daysAdded + 1 else daysAdded)
             businessDays
      else currentDate)"
  by pat_completeness auto

definition addBusinessDays :: "date \<Rightarrow> int \<Rightarrow> date" where
  "addBusinessDays startDate businessDays =
     (let currentDate = startOfDay startDate
      in if businessDays \<le> 0 then currentDate
         else addBusinessDaysLoop currentDate 0 businessDays)"

text \<open>The counting loop of \<^verbatim>\<open>getBusinessDaysBetween\<close>.\<close>

function countBusinessDaysLoop :: "date \<Rightarrow> date \<Rightarrow> int \<Rightarrow> int" where
  "countBusinessDaysLoop currentDate later businessDays =
     (if \<not> isAfter currentDate later
      then countBusinessDaysLoop (addDays currentDate 1) later
             (if isBusinessDay currentDate then businessDays + 1 else businessDays)
      else businessDays)"
  by pat_completeness auto

definition getBusinessDaysBetween :: "date \<Rightarrow> date \<Rightarrow> int" where
  "getBusinessDaysBetween startDate endDate =
     (let start = startOfDay startDate;
          end = startOfDay endDate
      in if isSameDay start end then 0
         else
           (let isNegative = isBefore end start;
                earlier = (if isNegative then end else start);
                later = (if isNegative then start else end);
                businessDays = countBusinessDaysLoop (addDays earlier 1) later 0
            in if isNegative then - businessDays else businessDays))"


section \<open>Phase deadlines\<close>

datatype PhaseName =
  planning | funding | wayleave | materials | announcement | kickoff
  | build | fqa | ecc | integration | rfa | com

definition PHASE_ORDER :: "PhaseName list" where
  "PHASE_ORDER =
     [planning, funding, wayleave, materials, announcement, kickoff,
      build, fqa, ecc, integration, rfa, com]"

fun MIRROR_PHASES :: "PhaseName \<Rightarrow> PhaseName option" where
  "MIRROR_PHASES fqa = Some build"
| "MIRROR_PHASES com = Some rfa"
| "MIRROR_PHASES _ = None"

text \<open>
  A table of deadlines is a partial map: \<^verbatim>\<open>deadlines[phase]\<close> is \<open>None\<close> where the object has no
  such key. A \<^verbatim>\<open>Date\<close> object is always truthy, so the test \<^verbatim>\<open>mirrorOf && deadlines[mirrorOf]\<close>
  asks whether the phase mirrors another one whose deadline is present.

  A duration table \<^verbatim>\<open>Record<PhaseName, number>\<close> is a total function into the integers:
  durations are whole numbers of days, and \<^verbatim>\<open>addBusinessDays\<close> treats a negative one like 0.

  \<open>deadlineStep\<close> is the body of the \<^verbatim>\<open>for\<close> loop, which is the same text in
  \<^verbatim>\<open>calculatePhaseDeadlines\<close> and in \<^verbatim>\<open>calculatePhaseDeadlinesFromDeadline\<close>; the loop state is
  the table together with \<^verbatim>\<open>previousDeadline\<close>.
\<close>

type_synonym deadlines = "PhaseName \<rightharpoonup> date"

definition deadlineStep ::
  "(PhaseName \<Rightarrow> int) \<Rightarrow> deadlines \<times> date \<Rightarrow> PhaseName \<Rightarrow> deadlines \<times> date" where
  "deadlineStep allowedDaysPerPhase st phase =
     (let deadlines = fst st;
          previousDeadline = snd st;
          mirrored = (case MIRROR_PHASES phase of
                        None \<Rightarrow> None
                      | Some mirrorOf \<Rightarrow> deadlines mirrorOf)
      in case mirrored of
           Some d \<Rightarrow> (deadlines(phase \<mapsto> d), previousDeadline)
         | None \<Rightarrow>
             (let allowedDays = allowedDaysPerPhase phase
              in if phase = wayleave \<and> allowedDays = 0 then (deadlines, previousDeadline)
                 else
                   (let deadline = addBusinessDays previousDeadline allowedDays;
                        deadlines = deadlines(phase \<mapsto> deadline)
                    in if phase \<noteq> fqa \<and> phase \<noteq> com then (deadlines, deadline)
                       else (deadlines, previousDeadline))))"

definition calculatePhaseDeadlines :: "date \<Rightarrow> (PhaseName \<Rightarrow> int) \<Rightarrow> deadlines" where
  "calculatePhaseDeadlines siteSurveyDate allowedDaysPerPhase =
     (let deadlines = Map.empty;
          previousDeadline = startOfDay siteSurveyDate
      in fst (foldl (deadlineStep allowedDaysPerPhase) (deadlines, previousDeadline) PHASE_ORDER))"

fun indexOf :: "'a list \<Rightarrow> 'a \<Rightarrow> int" where
  "indexOf [] x = - 1"
| "indexOf (y # ys) x =
     (if y = x then 0 else (let r = indexOf ys x in if r < 0 then - 1 else r + 1))"

definition calculatePhaseDeadlinesFromDeadline ::
  "PhaseName \<Rightarrow> date \<Rightarrow> (PhaseName \<Rightarrow> int) \<Rightarrow> deadlines \<Rightarrow> deadlines" where
  "calculatePhaseDeadlinesFromDeadline changedPhase newDeadline allowedDaysPerPhase currentDeadlines =
     (let deadlines = currentDeadlines;
          changedPhaseIndex = indexOf PHASE_ORDER changedPhase;
          deadlines = deadlines(changedPhase \<mapsto> startOfDay newDeadline);
          deadlines = (if changedPhase = fqa then deadlines(build := deadlines fqa) else deadlines);
          deadlines = (if changedPhase = build then deadlines(fqa := deadlines build) else deadlines);
          deadlines = (if changedPhase = rfa then deadlines(com := deadlines rfa) else deadlines);
          deadlines = (if changedPhase = com then deadlines(rfa := deadlines com) else deadlines);
          previousDeadline = startOfDay newDeadline
      in fst (foldl (deadlineStep allowedDaysPerPhase) (deadlines, previousDeadline)
                (drop (nat (changedPhaseIndex + 1)) PHASE_ORDER)))"

text \<open>The state of the loop of \<^verbatim>\<open>calculatePhaseDeadlines\<close> after its first \<open>n\<close> iterations.\<close>

definition loopState :: "date \<Rightarrow> (PhaseName \<Rightarrow> int) \<Rightarrow> nat \<Rightarrow> deadlines \<times> date" where
  "loopState siteSurveyDate allowedDaysPerPhase n =
     foldl (deadlineStep allowedDaysPerPhase) (Map.empty, startOfDay siteSurveyDate)
       (take n PHASE_ORDER)"




text \<open>The default durations of the source; the two mirror phases have none of their own.\<close>

fun DEFAULT_ALLOWED_DAYS :: "PhaseName \<Rightarrow> int" where
  "DEFAULT_ALLOWED_DAYS planning = 10"
| "DEFAULT_ALLOWED_DAYS funding = 2"
| "DEFAULT_ALLOWED_DAYS wayleave = 20"
| "DEFAULT_ALLOWED_DAYS materials = 15"
| "DEFAULT_ALLOWED_DAYS announcement = 1"
| "DEFAULT_ALLOWED_DAYS kickoff = 2"
| "DEFAULT_ALLOWED_DAYS build = 20"
| "DEFAULT_ALLOWED_DAYS fqa = 0"
| "DEFAULT_ALLOWED_DAYS ecc = 1"
| "DEFAULT_ALLOWED_DAYS integration = 2"
| "DEFAULT_ALLOWED_DAYS rfa = 1"
| "DEFAULT_ALLOWED_DAYS com = 0"

text \<open>
  A short table for the examples: the default one with planning, materials and build cut to one
  day and wayleave switched off.
\<close>

abbreviation shortDays :: "PhaseName \<Rightarrow> int" where
  "shortDays \<equiv> DEFAULT_ALLOWED_DAYS(planning := 1, wayleave := 0, materials := 1, build := 1)"

text \<open>
  The iteration step in the words of the specification: a mirror phase whose source already has a
  deadline receives that deadline and the cursor stays; the wayleave phase with no allowed days
  receives nothing and the cursor stays; every other phase receives
  \<^verbatim>\<open>addBusinessDays(cursor, allowedDays)\<close> and the cursor advances to that deadline. It is compared
  with \<open>deadlineStep\<close>, the step of the source.
\<close>

definition claimedStep ::
  "(PhaseName \<Rightarrow> int) \<Rightarrow> deadlines \<times> date \<Rightarrow> PhaseName \<Rightarrow> deadlines \<times> date" where
  "claimedStep allowedDays st phase =
     (let deadlines = fst st;
          cursor = snd st;
          sourceDeadline = (case MIRROR_PHASES phase of
                              None \<Rightarrow> None
                            | Some source \<Rightarrow> deadlines source)
      in case sourceDeadline of
           Some d \<Rightarrow> (deadlines(phase \<mapsto> d), cursor)
         | None \<Rightarrow>
             if phase = wayleave \<and> allowedDays phase = 0 then (deadlines, cursor)
             else (deadlines(phase \<mapsto> addBusinessDays cursor (allowedDays phase)),
                   addBusinessDays cursor (allowedDays phase)))"

section \<open>The calendar\<close>

lemma div_step:
  assumes k: "0 < k"
  shows "((x::int) + 1) div k = x div k + (if (x + 1) mod k = 0 then 1 else 0)"
proof -
  define q where "q = x div k"
  define r where "r = x mod k"
  have qr: "x = q * k + r" "0 \<le> r" "r < k"
    using k by (simp_all add: q_def r_def)
  show ?thesis
  proof (cases "r + 1 = k")
    case True
    then have "x + 1 = (q + 1) * k" using qr by (simp add: algebra_simps)
    then show ?thesis using k by (simp add: q_def)
  next
    case False
    then have r1: "0 \<le> r + 1" "r + 1 < k" using qr by auto
    have e: "x + 1 = q * k + (r + 1)" using qr by simp
    have "(x + 1) div k = q" unfolding e using r1 k by (simp add: div_pos_pos_trivial)
    moreover have "(x + 1) mod k = r + 1" unfolding e using r1 by (simp add: mod_pos_pos_trivial)
    ultimately show ?thesis using r1 qr(2) by (simp add: q_def)
  qed
qed

lemma m4: "((y::int) - 1968) mod 4 = y mod 4"
  using mod_mult_self1[of y "-492" 4] by simp
lemma m100: "((y::int) - 1900) mod 100 = y mod 100"
  using mod_mult_self1[of y "-19" 100] by simp
lemma m400: "((y::int) - 1600) mod 400 = y mod 400"
  using mod_mult_self1[of y "-4" 400] by simp

lemma DayFromYear_Suc: "DayFromYear (y + 1) = DayFromYear y + DaysInYear y"
proof -
  have a: "(y + 1 - 1969) div 4 = (y - 1969) div 4 + (if y mod 4 = 0 then 1 else 0)"
    using div_step[of 4 "y - 1969"] m4[of y] by (simp add: algebra_simps)
  have b: "(y + 1 - 1901) div 100 = (y - 1901) div 100 + (if y mod 100 = 0 then 1 else 0)"
    using div_step[of 100 "y - 1901"] m100[of y] by (simp add: algebra_simps)
  have c: "(y + 1 - 1601) div 400 = (y - 1601) div 400 + (if y mod 400 = 0 then 1 else 0)"
    using div_step[of 400 "y - 1601"] m400[of y] by (simp add: algebra_simps)
  have d: "y mod 100 = 0 \<Longrightarrow> y mod 4 = 0"
    using dvd_trans[of 4 100 y] by (simp add: mod_eq_0_iff_dvd)
  have e: "y mod 400 = 0 \<Longrightarrow> y mod 100 = 0"
    using dvd_trans[of 100 400 y] by (simp add: mod_eq_0_iff_dvd)
  show ?thesis
    unfolding DayFromYear_def DaysInYear_def a b c using d e by auto
qed


lemma DayFromYear_bounds:
  "146097 * (y - 1970) - 608 \<le> 400 * DayFromYear y"
  "400 * DayFromYear y \<le> 146097 * (y - 1970) + 596"
proof -
  define a where "a = (y - 1969) div 4"
  define b where "b = (y - 1901) div 100"
  define c where "c = (y - 1601) div 400"
  have a: "4 * a \<le> y - 1969" "y - 1969 \<le> 4 * a + 3" unfolding a_def by simp_all
  have b: "100 * b \<le> y - 1901" "y - 1901 \<le> 100 * b + 99" unfolding b_def by simp_all
  have c: "400 * c \<le> y - 1601" "y - 1601 \<le> 400 * c + 399" unfolding c_def by simp_all
  have a': "400 * a \<le> 100 * y - 196900" "100 * y - 196900 \<le> 400 * a + 300" using a by simp_all
  have b': "400 * b \<le> 4 * y - 7604" "4 * y - 7604 \<le> 400 * b + 396" using b by simp_all
  have e: "400 * DayFromYear y = 146000 * y - 287620000 + 400 * a - 400 * b + 400 * c"
    unfolding DayFromYear_def a_def b_def c_def by simp
  show "146097 * (y - 1970) - 608 \<le> 400 * DayFromYear y"
    unfolding e using a' b' c by simp
  show "400 * DayFromYear y \<le> 146097 * (y - 1970) + 596"
    unfolding e using a' b' c by simp
qed

lemma year_estimate:
  assumes "y = 1970 + (400 * n) div 146097"
  shows "146097 * (y - 1970) \<le> 400 * (n::int)"
    and "400 * n < 146097 * (y - 1970) + 146097"
proof -
  have "146097 * ((400 * n) div 146097) \<le> 400 * n" by simp
  then show "146097 * (y - 1970) \<le> 400 * n" using assms by simp
  have "400 * n - 146097 * ((400 * n) div 146097) < 146097"
    using pos_mod_bound[of 146097 "400 * n"] by (simp add: minus_mult_div_eq_mod)
  then show "400 * n < 146097 * (y - 1970) + 146097" using assms by simp
qed

lemma YearFromDay_lower: "DayFromYear (YearFromDay n) \<le> n"
proof -
  define y where "y = 1970 + (400 * n) div 146097"
  have a: "146097 * (y - 1970) \<le> 400 * n" using year_estimate(1)[OF y_def] .
  have "400 * DayFromYear (y - 1) \<le> 146097 * (y - 1 - 1970) + 596"
    by (rule DayFromYear_bounds)
  with a have "DayFromYear (y - 1) \<le> n" by simp
  then show ?thesis
    unfolding YearFromDay_def Let_def y_def[symmetric] by auto
qed

lemma YearFromDay_upper: "n < DayFromYear (YearFromDay n + 1)"
proof -
  define y where "y = 1970 + (400 * n) div 146097"
  have a: "400 * n < 146097 * (y - 1970) + 146097" using year_estimate(2)[OF y_def] .
  have "146097 * (y + 2 - 1970) - 608 \<le> 400 * DayFromYear (y + 2)"
    by (rule DayFromYear_bounds)
  with a have b: "n < DayFromYear (y + 2)" by simp
  have c: "y + 1 + 1 = y + 2" "y - 1 + 1 = y" by simp_all
  show ?thesis
    unfolding YearFromDay_def Let_def y_def[symmetric] using b by (simp add: c)
qed

lemma DaysInYear_ge: "365 \<le> DaysInYear y"
  by (simp add: DaysInYear_def)

lemma DayFromYear_mono_nat: "DayFromYear y \<le> DayFromYear (y + int k)"
proof (induction k)
  case 0
  show ?case by simp
next
  case (Suc k)
  have "DayFromYear (y + int (Suc k)) = DayFromYear (y + int k) + DaysInYear (y + int k)"
    using DayFromYear_Suc[of "y + int k"] by (simp add: algebra_simps)
  with Suc DaysInYear_ge[of "y + int k"] show ?case by simp
qed

lemma DayFromYear_mono: "y \<le> z \<Longrightarrow> DayFromYear y \<le> DayFromYear z"
  using DayFromYear_mono_nat[of y "nat (z - y)"] by simp

lemma YearFromDay_unique:
  assumes "DayFromYear y \<le> n" and "n < DayFromYear (y + 1)"
  shows "YearFromDay n = y"
proof (rule ccontr)
  assume neq: "YearFromDay n \<noteq> y"
  define z where "z = YearFromDay n"
  have lo: "DayFromYear z \<le> n" and hi: "n < DayFromYear (z + 1)"
    unfolding z_def by (rule YearFromDay_lower, rule YearFromDay_upper)
  show False
  proof (cases "z < y")
    case True
    then have "DayFromYear (z + 1) \<le> DayFromYear y" by (intro DayFromYear_mono) simp
    with assms(1) hi show False by simp
  next
    case False
    with neq have "y + 1 \<le> z" by (simp add: z_def)
    then have "DayFromYear (y + 1) \<le> DayFromYear z" by (rule DayFromYear_mono)
    with assms(2) lo show False by simp
  qed
qed


section \<open>Days and start of day\<close>

lemma Day_startOfDay: "Day (startOfDay t) = Day t"
  by (simp add: startOfDay_def Day_def msPerDay_def)

lemma Day_addDays: "Day (addDays t k) = Day t + k"
  by (simp add: addDays_def Day_def msPerDay_def)

lemma startOfDay_idem: "startOfDay (startOfDay t) = startOfDay t"
  by (simp add: startOfDay_def Day_def msPerDay_def)

lemma startOfDay_addDays: "startOfDay (addDays t k) = addDays (startOfDay t) k"
  by (simp add: startOfDay_def Day_def addDays_def msPerDay_def algebra_simps)

lemma startOfDay_le: "startOfDay t \<le> t"
  by (simp add: startOfDay_def Day_def msPerDay_def)

lemma startOfDay_gt: "t < startOfDay t + msPerDay"
proof -
  have "t - t div msPerDay * msPerDay < msPerDay"
    using pos_mod_bound[of msPerDay t] by (simp add: minus_div_mult_eq_mod msPerDay_def)
  then show ?thesis by (simp add: startOfDay_def Day_def)
qed

lemma startOfDay_eq_iff: "startOfDay a = startOfDay b \<longleftrightarrow> Day a = Day b"
  by (simp add: startOfDay_def msPerDay_def)

lemma isSameDay_startOfDay: "isSameDay h (startOfDay t) \<longleftrightarrow> Day h = Day t"
  by (simp add: isSameDay_def startOfDay_idem startOfDay_eq_iff)

lemma length_getSAPublicHolidays: "length (getSAPublicHolidays y) = 12"
  by (simp add: getSAPublicHolidays_def fixedHolidays_def Let_def)

lemma isPublicHoliday_iff:
  "isPublicHoliday t \<longleftrightarrow> Day t \<in> Day ` set (getSAPublicHolidays (YearFromDay (Day t)))"
proof -
  have "isPublicHoliday t \<longleftrightarrow>
        (\<exists>h \<in> set (getSAPublicHolidays (YearFromDay (Day t))). Day h = Day t)"
    by (simp add: isPublicHoliday_def Let_def list_ex_iff isSameDay_startOfDay getYear_def)
  also have "\<dots> \<longleftrightarrow> Day t \<in> Day ` set (getSAPublicHolidays (YearFromDay (Day t)))"
    by (metis image_iff)
  finally show ?thesis .
qed


section \<open>A business day follows every date\<close>

text \<open>
  Among the forty days after any date there are twenty-five week days that lie in at most two
  calendar years, and a year has twelve holiday entries.
\<close>

lemma year_window:
  assumes "n < x" and "x \<le> n + 40"
  shows "YearFromDay x = YearFromDay (n + 1) \<or> YearFromDay x = YearFromDay (n + 1) + 1"
proof -
  define Y where "Y = YearFromDay (n + 1)"
  have lo: "DayFromYear Y \<le> n + 1" and hi: "n + 1 < DayFromYear (Y + 1)"
    unfolding Y_def by (rule YearFromDay_lower, rule YearFromDay_upper)
  have nxt: "DayFromYear (Y + 1) + 365 \<le> DayFromYear (Y + 1 + 1)"
    using DayFromYear_Suc[of "Y + 1"] DaysInYear_ge[of "Y + 1"] by simp
  show ?thesis
  proof (cases "x < DayFromYear (Y + 1)")
    case True
    with lo assms have "YearFromDay x = Y" by (intro YearFromDay_unique) simp_all
    then show ?thesis by (simp add: Y_def)
  next
    case False
    with hi nxt assms have "YearFromDay x = Y + 1" by (intro YearFromDay_unique) simp_all
    then show ?thesis by (simp add: Y_def)
  qed
qed

lemma slot_eq:
  assumes a: "7 * ((i::int) div 5) + i mod 5 = 7 * (j div 5) + j mod 5"
  shows "i = j"
proof -
  define qi ri qj rj where "qi = i div 5" and "ri = i mod 5" and "qj = j div 5" and "rj = j mod 5"
  have b: "0 \<le> ri" "ri < 5" "0 \<le> rj" "rj < 5" by (simp_all add: ri_def rj_def)
  have a': "7 * qi + ri = 7 * qj + rj" using a by (simp add: qi_def ri_def qj_def rj_def)
  have q: "qi = qj" using a' b by linarith
  with a' have r: "ri = rj" by simp
  have "i = 5 * qi + ri" "j = 5 * qj + rj" by (simp_all add: qi_def ri_def qj_def rj_def)
  with q r show "i = j" by simp
qed

lemma weekday_slots_inj: "inj_on (\<lambda>i::int. m + 7 * (1 + i div 5) + (1 + i mod 5)) {0..24}"
proof (rule inj_onI)
  fix i j :: int
  assume "m + 7 * (1 + i div 5) + (1 + i mod 5) = m + 7 * (1 + j div 5) + (1 + j mod 5)"
  then have "7 * (i div 5) + i mod 5 = 7 * (j div 5) + j mod 5" by simp
  then show "i = j" by (rule slot_eq)
qed

lemma week_start:
  fixes m n :: int
  assumes m: "m = n - (n + 4) mod 7"
  shows "m \<le> n" and "n < m + 7" and "(m + 4) mod 7 = 0"
proof -
  have b: "0 \<le> (n + 4) mod 7" "(n + 4) mod 7 < 7" by simp_all
  have "(m + 4) mod 7 = ((n + 4) - (n + 4) mod 7) mod 7" by (simp add: m algebra_simps)
  also have "\<dots> = 0" by (simp add: minus_mod_eq_mult_div)
  finally show "(m + 4) mod 7 = 0" .
  show "m \<le> n" "n < m + 7" using b m by simp_all
qed

lemma slot_range:
  fixes m n i :: int
  assumes "0 \<le> i" "i \<le> 24" "m \<le> n" "n < m + 7" "x = m + 7 * (1 + i div 5) + (1 + i mod 5)"
  shows "n < x" and "x \<le> n + 40"
proof -
  have b: "0 \<le> i mod 5" "i mod 5 < 5" by simp_all
  have c: "0 \<le> i div 5" "i div 5 \<le> 4" using assms(1,2) by simp_all
  show "n < x" "x \<le> n + 40" using assms b c by simp_all
qed

lemma slot_weekday:
  fixes m i :: int
  assumes "(m + 4) mod 7 = 0" "x = m + 7 * (1 + i div 5) + (1 + i mod 5)"
  shows "(x + 4) mod 7 = 1 + i mod 5"
proof -
  have b: "0 \<le> i mod 5" "i mod 5 < 5" by simp_all
  have "(x + 4) mod 7 = ((m + 4) + (1 + i mod 5) + 7 * (1 + i div 5)) mod 7"
    by (simp add: assms(2) algebra_simps)
  also have "\<dots> = ((m + 4) + (1 + i mod 5)) mod 7" by (simp only: mod_mult_self2)
  also have "\<dots> = ((m + 4) mod 7 + (1 + i mod 5)) mod 7" by (simp only: mod_add_left_eq)
  also have "\<dots> = 1 + i mod 5" using b by (simp add: assms(1))
  finally show ?thesis .
qed

lemma business_day_exists: "\<exists>k. 1 \<le> k \<and> k \<le> 40 \<and> isBusinessDay (addDays t k)"
proof (rule ccontr)
  assume none: "\<not> (\<exists>k. 1 \<le> k \<and> k \<le> 40 \<and> isBusinessDay (addDays t k))"
  define n where "n = Day t"
  define m where "m = n - (n + 4) mod 7"
  define Y where "Y = YearFromDay (n + 1)"
  define slot where "slot = (\<lambda>i::int. m + 7 * (1 + i div 5) + (1 + i mod 5))"
  define H where "H = Day ` (set (getSAPublicHolidays Y) \<union> set (getSAPublicHolidays (Y + 1)))"
  have m_bounds: "m \<le> n" "n < m + 7" and m_sun: "(m + 4) mod 7 = 0"
    using week_start[OF m_def] by simp_all
  have sub: "slot ` {0..24} \<subseteq> H"
  proof
    fix x assume "x \<in> slot ` {0..24}"
    then obtain i where i: "0 \<le> i" "i \<le> 24" and x: "x = slot i" by auto
    have xs: "x = m + 7 * (1 + i div 5) + (1 + i mod 5)" by (simp add: x slot_def)
    have rng: "n < x" "x \<le> n + 40"
      using slot_range[OF i m_bounds xs] by simp_all
    have im: "0 \<le> i mod 5" "i mod 5 < 5" by simp_all
    have wd: "(x + 4) mod 7 \<noteq> 0" "(x + 4) mod 7 \<noteq> 6"
      unfolding slot_weekday[OF m_sun xs] using im by simp_all
    define k where "k = x - n"
    have k: "1 \<le> k" "k \<le> 40" using rng by (simp_all add: k_def)
    have dx: "Day (addDays t k) = x" by (simp add: Day_addDays k_def n_def)
    from none k have "\<not> isBusinessDay (addDays t k)" by blast
    moreover have "\<not> isWeekend (addDays t k)"
      using wd by (simp add: isWeekend_def getDay_def dx)
    ultimately have "isPublicHoliday (addDays t k)" by (simp add: isBusinessDay_def)
    then have mem: "x \<in> Day ` set (getSAPublicHolidays (YearFromDay x))"
      by (simp add: isPublicHoliday_iff dx)
    from year_window[OF rng] have "YearFromDay x = Y \<or> YearFromDay x = Y + 1"
      by (simp add: Y_def)
    with mem show "x \<in> H" unfolding H_def by auto
  qed
  have "card H \<le> card (set (getSAPublicHolidays Y) \<union> set (getSAPublicHolidays (Y + 1)))"
    unfolding H_def by (rule card_image_le) simp
  also have "\<dots> \<le> card (set (getSAPublicHolidays Y)) + card (set (getSAPublicHolidays (Y + 1)))"
    by (rule card_Un_le)
  also have "\<dots> \<le> 12 + 12"
    using card_length[of "getSAPublicHolidays Y"] card_length[of "getSAPublicHolidays (Y + 1)"]
    by (simp add: length_getSAPublicHolidays)
  finally have cH: "card H \<le> 24" by simp
  have fin: "finite H" unfolding H_def by simp
  have inj: "inj_on slot {0..24}" unfolding slot_def by (rule weekday_slots_inj)
  have "card (slot ` {0..24}) = card {0..24::int}" by (rule card_image[OF inj])
  then have "card (slot ` {0..24}) = 25" by simp
  moreover have "card (slot ` {0..24}) \<le> card H"
    by (rule card_mono[OF fin sub])
  ultimately show False using cH by simp
qed


lemma addDays_addDays: "addDays (addDays t j) k = addDays t (j + k)"
  by (simp add: addDays_def algebra_simps)

lemma next_business_day_nat: "\<exists>k::nat. isBusinessDay (addDays c (1 + int k))"
proof -
  obtain j where j: "1 \<le> j" "isBusinessDay (addDays c j)"
    using business_day_exists[of c] by blast
  then have "isBusinessDay (addDays c (1 + int (nat (j - 1))))" by simp
  then show ?thesis ..
qed

lemma least_gap_decreases:
  assumes "\<not> isBusinessDay (addDays c 1)"
  shows "(LEAST k. isBusinessDay (addDays (addDays c 1) (1 + int k)))
           < (LEAST k. isBusinessDay (addDays c (1 + int k)))"
proof -
  define L where "L = (LEAST k. isBusinessDay (addDays c (1 + int k)))"
  have PL: "isBusinessDay (addDays c (1 + int L))"
    unfolding L_def using next_business_day_nat[of c] by (rule LeastI_ex)
  have "L \<noteq> 0" using PL assms by (cases "L = 0") simp_all
  then obtain L' where L': "L = Suc L'" by (cases L) simp_all
  have "isBusinessDay (addDays (addDays c 1) (1 + int L'))"
    using PL by (simp add: addDays_addDays L' algebra_simps)
  then have "(LEAST k. isBusinessDay (addDays (addDays c 1) (1 + int k))) \<le> L'"
    by (rule Least_le)
  then show ?thesis unfolding L_def[symmetric] L' by simp
qed

text \<open>Both loops terminate on every input.\<close>

termination addBusinessDaysLoop
proof (relation "measures [\<lambda>(c, a, n). nat (n - a),
                           \<lambda>(c, a, n). (LEAST k. isBusinessDay (addDays c (1 + int k)))]")
  show "wf (measures [\<lambda>(c, a, n). nat (n - a),
                      \<lambda>(c, a, n). (LEAST k. isBusinessDay (addDays c (1 + int k)))])"
    by simp
next
  fix currentDate :: date and daysAdded businessDays :: int
  assume "daysAdded < businessDays"
  then show "((addDays currentDate 1,
               if isBusinessDay (addDays currentDate 1) then daysAdded + 1 else daysAdded,
               businessDays),
              currentDate, daysAdded, businessDays)
             \<in> measures [\<lambda>(c, a, n). nat (n - a),
                          \<lambda>(c, a, n). (LEAST k. isBusinessDay (addDays c (1 + int k)))]"
    using least_gap_decreases[of currentDate] by auto
qed

termination countBusinessDaysLoop
  by (relation "measure (\<lambda>(c, l, b). nat (l - c + 1))")
     (auto simp: isAfter_def addDays_def msPerDay_def)

declare addBusinessDaysLoop.simps [simp del]
declare countBusinessDaysLoop.simps [simp del]


section \<open>Adding business days\<close>

lemma addBusinessDaysLoop_ge: "c \<le> addBusinessDaysLoop c a n"
proof (induction c a n rule: addBusinessDaysLoop.induct)
  case (1 c a n)
  show ?case
  proof (cases "a < n")
    case True
    have "c \<le> addDays c 1" by (simp add: addDays_def msPerDay_def)
    also have "\<dots> \<le> addBusinessDaysLoop (addDays c 1)
                       (if isBusinessDay (addDays c 1) then a + 1 else a) n"
      using "1.IH"[OF True] .
    finally show ?thesis using True by (simp add: addBusinessDaysLoop.simps[of c a n])
  next
    case False
    then show ?thesis by (simp add: addBusinessDaysLoop.simps[of c a n])
  qed
qed

lemma addBusinessDaysLoop_business:
  "a < n \<Longrightarrow> isBusinessDay (addBusinessDaysLoop c a n) \<and> addDays c 1 \<le> addBusinessDaysLoop c a n"
proof (induction c a n rule: addBusinessDaysLoop.induct)
  case (1 c a n)
  define c' where "c' = addDays c 1"
  define a' where "a' = (if isBusinessDay c' then a + 1 else a)"
  have unf: "addBusinessDaysLoop c a n = addBusinessDaysLoop c' a' n"
    using "1.prems" by (simp add: addBusinessDaysLoop.simps[of c a n] c'_def a'_def)
  have ge: "c' \<le> addBusinessDaysLoop c' a' n" by (rule addBusinessDaysLoop_ge)
  show ?case
  proof (cases "a' < n")
    case True
    then have "isBusinessDay (addBusinessDaysLoop c' a' n)"
      using "1.IH"[OF "1.prems"] by (simp add: c'_def a'_def)
    then show ?thesis unfolding unf using ge by (simp add: c'_def)
  next
    case False
    then have stop: "addBusinessDaysLoop c' a' n = c'"
      by (simp add: addBusinessDaysLoop.simps[of c' a' n])
    have "isBusinessDay c'"
      using False "1.prems" by (cases "isBusinessDay c'") (simp_all add: a'_def)
    then show ?thesis unfolding unf stop by (simp add: c'_def)
  qed
qed

lemma addBusinessDaysLoop_startOfDay:
  "startOfDay c = c \<Longrightarrow> startOfDay (addBusinessDaysLoop c a n) = addBusinessDaysLoop c a n"
proof (induction c a n rule: addBusinessDaysLoop.induct)
  case (1 c a n)
  show ?case
  proof (cases "a < n")
    case True
    have "startOfDay (addDays c 1) = addDays c 1"
      using "1.prems" by (simp add: startOfDay_addDays)
    from "1.IH"[OF True this] show ?thesis
      using True by (simp add: addBusinessDaysLoop.simps[of c a n])
  next
    case False
    then show ?thesis using "1.prems" by (simp add: addBusinessDaysLoop.simps[of c a n])
  qed
qed

lemma addBusinessDays_nonpositive: "n \<le> 0 \<Longrightarrow> addBusinessDays d n = startOfDay d"
  by (simp add: addBusinessDays_def)

lemma addBusinessDays_startOfDay: "startOfDay (addBusinessDays d n) = addBusinessDays d n"
  by (simp add: addBusinessDays_def Let_def startOfDay_idem addBusinessDaysLoop_startOfDay)

lemma addBusinessDays_of_startOfDay: "addBusinessDays (startOfDay d) n = addBusinessDays d n"
  by (simp add: addBusinessDays_def startOfDay_idem)

lemma addBusinessDays_ge: "startOfDay d \<le> addBusinessDays d n"
  by (simp add: addBusinessDays_def Let_def addBusinessDaysLoop_ge)

lemma addBusinessDays_positive:
  assumes "0 < n"
  shows "isBusinessDay (addBusinessDays d n)" and "d < addBusinessDays d n"
proof -
  have e: "addBusinessDays d n = addBusinessDaysLoop (startOfDay d) 0 n"
    using assms by (simp add: addBusinessDays_def)
  from addBusinessDaysLoop_business[OF assms, of "startOfDay d"]
  show "isBusinessDay (addBusinessDays d n)" by (simp add: e)
  have "d < addDays (startOfDay d) 1" using startOfDay_gt[of d] by (simp add: addDays_def)
  also have "\<dots> \<le> addBusinessDays d n"
    using addBusinessDaysLoop_business[OF assms, of "startOfDay d"] by (simp add: e)
  finally show "d < addBusinessDays d n" .
qed

text \<open>
  Claim C7. For every business day \<open>d\<close>, \<^verbatim>\<open>addBusinessDays(d, 1)\<close> returns a date strictly later
  than \<open>d\<close> that is itself a business day: not a Saturday (week day 6), not a Sunday (week day 0)
  and not a public holiday. The function is total, so the date is always returned.
\<close>

theorem addBusinessDays_one_later_business_day:
  assumes "isBusinessDay d"
  shows "d < addBusinessDays d 1 \<and> isBusinessDay (addBusinessDays d 1)
         \<and> getDay (addBusinessDays d 1) \<noteq> 6 \<and> getDay (addBusinessDays d 1) \<noteq> 0
         \<and> \<not> isPublicHoliday (addBusinessDays d 1)"
proof -
  have b: "isBusinessDay (addBusinessDays d 1)" and l: "d < addBusinessDays d 1"
    using addBusinessDays_positive[of 1 d] by simp_all
  from b have "\<not> isWeekend (addBusinessDays d 1)" "\<not> isPublicHoliday (addBusinessDays d 1)"
    by (simp_all add: isBusinessDay_def)
  then show ?thesis using b l by (simp add: isWeekend_def Let_def)
qed


text \<open>
  Friday 2 January 1970 is a business day; one business day later is Monday 5 January 1970.
\<close>

theorem addBusinessDays_one_later_business_day_witness:
  "isBusinessDay 86400000 \<and> 86400000 < addBusinessDays 86400000 1
   \<and> isBusinessDay (addBusinessDays 86400000 1) \<and> addBusinessDays 86400000 1 = 345600000"
proof -
  have h: "isBusinessDay 86400000" by code_simp
  have v: "addBusinessDays 86400000 1 = 345600000" by code_simp
  from addBusinessDays_one_later_business_day[OF h] h v show ?thesis by simp
qed


section \<open>Counting business days\<close>

lemma isSameDay_of_startOfDay: "isSameDay (startOfDay a) (startOfDay b) \<longleftrightarrow> isSameDay a b"
  by (simp add: isSameDay_def startOfDay_idem)

lemma isSameDay_sym: "isSameDay a b \<longleftrightarrow> isSameDay b a"
  by (auto simp: isSameDay_def)

lemma getBusinessDaysBetween_sameDay: "isSameDay a b \<Longrightarrow> getBusinessDaysBetween a b = 0"
  by (simp add: getBusinessDaysBetween_def isSameDay_of_startOfDay)

lemma getBusinessDaysBetween_antisym:
  "getBusinessDaysBetween a b = - getBusinessDaysBetween b a"
proof (cases "isSameDay a b")
  case True
  then show ?thesis
    using getBusinessDaysBetween_sameDay[of a b] getBusinessDaysBetween_sameDay[of b a]
    by (simp add: isSameDay_sym[of b a])
next
  case False
  then have ne: "startOfDay a \<noteq> startOfDay b" by (simp add: isSameDay_def)
  have nab: "\<not> isSameDay (startOfDay a) (startOfDay b)" "\<not> isSameDay (startOfDay b) (startOfDay a)"
    using False by (simp_all add: isSameDay_of_startOfDay isSameDay_sym[of b a])
  show ?thesis
  proof (cases "startOfDay b < startOfDay a")
    case True
    then have "\<not> startOfDay a < startOfDay b" by simp
    with True nab show ?thesis
      by (simp add: getBusinessDaysBetween_def Let_def isBefore_def)
  next
    case False
    with ne have "startOfDay a < startOfDay b" by simp
    with False nab show ?thesis
      by (simp add: getBusinessDaysBetween_def Let_def isBefore_def)
  qed
qed

lemma getBusinessDaysBetween_startOfDay:
  "getBusinessDaysBetween (startOfDay a) (startOfDay b) = getBusinessDaysBetween a b"
  by (simp add: getBusinessDaysBetween_def startOfDay_idem)

lemma getBusinessDaysBetween_startOfDay_left:
  "getBusinessDaysBetween (startOfDay a) b = getBusinessDaysBetween a b"
  by (simp add: getBusinessDaysBetween_def startOfDay_idem)




text \<open>
  Claim C5. For every pair of dates \<open>a\<close> and \<open>b\<close>, \<^verbatim>\<open>getBusinessDaysBetween(a, b)\<close> is the negation
  of \<^verbatim>\<open>getBusinessDaysBetween(b, a)\<close>, and it is 0 whenever \<open>a\<close> and \<open>b\<close> are the same calendar day.
\<close>

theorem getBusinessDaysBetween_antisymmetric:
  "getBusinessDaysBetween a b = - getBusinessDaysBetween b a
   \<and> (isSameDay a b \<longrightarrow> getBusinessDaysBetween a b = 0)"
  using getBusinessDaysBetween_antisym[of a b] getBusinessDaysBetween_sameDay[of a b] by simp

text \<open>
  From 1 January 1970 to 12 January 1970 there are seven business days; two instants of
  1 January 1970 are the same day.
\<close>

theorem getBusinessDaysBetween_antisymmetric_witness:
  "getBusinessDaysBetween 0 950400000 = 7 \<and> getBusinessDaysBetween 950400000 0 = - 7
   \<and> isSameDay 5 7 \<and> getBusinessDaysBetween 5 7 = 0"
proof -
  have v: "getBusinessDaysBetween 0 950400000 = 7" by code_simp
  have h: "isSameDay 5 7" by code_simp
  from getBusinessDaysBetween_antisymmetric[of 950400000 0]
       getBusinessDaysBetween_antisymmetric[of 5 7] v h
  show ?thesis by simp
qed





section \<open>The loop over the phases\<close>

lemma deadlineStep_mirror:
  "MIRROR_PHASES p = Some src \<Longrightarrow> dl src = Some d \<Longrightarrow>
   deadlineStep al (dl, cur) p = (dl(p \<mapsto> d), cur)"
  by (simp add: deadlineStep_def)

lemma deadlineStep_unresolved:
  "MIRROR_PHASES p = Some src \<Longrightarrow> dl src = None \<Longrightarrow>
   deadlineStep al (dl, cur) p = (dl(p \<mapsto> addBusinessDays cur (al p)), cur)"
  by (cases p) (simp_all add: deadlineStep_def)

lemma deadlineStep_skip:
  "al wayleave = 0 \<Longrightarrow> deadlineStep al (dl, cur) wayleave = (dl, cur)"
  by (simp add: deadlineStep_def)

lemma deadlineStep_plain:
  "MIRROR_PHASES p = None \<Longrightarrow> p \<noteq> wayleave \<or> al p \<noteq> 0 \<Longrightarrow>
   deadlineStep al (dl, cur) p
     = (dl(p \<mapsto> addBusinessDays cur (al p)), addBusinessDays cur (al p))"
  by (cases p) (auto simp: deadlineStep_def Let_def)


lemma length_PHASE_ORDER: "length PHASE_ORDER = 12"
  by (simp add: PHASE_ORDER_def)

lemma distinct_PHASE_ORDER: "distinct PHASE_ORDER"
  by (simp add: PHASE_ORDER_def)

lemma loopState_0: "loopState s al 0 = (Map.empty, startOfDay s)"
  by (simp add: loopState_def)

lemma loopState_Suc:
  "n < length PHASE_ORDER \<Longrightarrow>
   loopState s al (Suc n) = deadlineStep al (loopState s al n) (PHASE_ORDER ! n)"
  by (simp add: loopState_def take_Suc_conv_app_nth)

lemma calculatePhaseDeadlines_loopState:
  "calculatePhaseDeadlines s al = fst (loopState s al (length PHASE_ORDER))"
  by (simp add: calculatePhaseDeadlines_def loopState_def)

lemma mirror_index:
  assumes "n < length PHASE_ORDER" and "MIRROR_PHASES (PHASE_ORDER ! n) = Some src"
  shows "(n = 7 \<and> src = build) \<or> (n = 11 \<and> src = rfa)"
proof -
  have at7: "PHASE_ORDER ! 7 = fqa" and at11: "PHASE_ORDER ! 11 = com"
    by (simp_all add: PHASE_ORDER_def)
  have pos: "n = k" if "PHASE_ORDER ! n = PHASE_ORDER ! k" "k < 12" for k
    using that assms(1) distinct_PHASE_ORDER
    by (simp add: nth_eq_iff_index_eq length_PHASE_ORDER)
  from assms(2) have "(PHASE_ORDER ! n = fqa \<and> src = build) \<or> (PHASE_ORDER ! n = com \<and> src = rfa)"
    by (cases "PHASE_ORDER ! n") simp_all
  then show ?thesis
    using pos[of 7] pos[of 11] by (auto simp: at7 at11)
qed

lemma source_ready_fqa: "fst (loopState s al 7) build = Some (snd (loopState s al 7))"
proof -
  obtain dl cur where st: "loopState s al 6 = (dl, cur)" by (cases "loopState s al 6")
  have "loopState s al (Suc 6) = deadlineStep al (loopState s al 6) (PHASE_ORDER ! 6)"
    by (rule loopState_Suc) (simp add: length_PHASE_ORDER)
  also have "PHASE_ORDER ! 6 = build" by (simp add: PHASE_ORDER_def)
  finally show ?thesis by (simp add: st deadlineStep_plain)
qed

lemma source_ready_com: "fst (loopState s al 11) rfa = Some (snd (loopState s al 11))"
proof -
  obtain dl cur where st: "loopState s al 10 = (dl, cur)" by (cases "loopState s al 10")
  have "loopState s al (Suc 10) = deadlineStep al (loopState s al 10) (PHASE_ORDER ! 10)"
    by (rule loopState_Suc) (simp add: length_PHASE_ORDER)
  also have "PHASE_ORDER ! 10 = rfa" by (simp add: PHASE_ORDER_def)
  finally show ?thesis by (simp add: st deadlineStep_plain)
qed

lemma source_ready:
  assumes "n < length PHASE_ORDER" and "MIRROR_PHASES (PHASE_ORDER ! n) = Some src"
  shows "fst (loopState s al n) src = Some (snd (loopState s al n))"
  using mirror_index[OF assms] source_ready_fqa[of s al] source_ready_com[of s al] by auto

lemma deadlineStep_claimedStep:
  assumes "\<And>src. MIRROR_PHASES p = Some src \<Longrightarrow> fst st src \<noteq> None"
  shows "deadlineStep al st p = claimedStep al st p"
proof (cases "MIRROR_PHASES p")
  case None
  then show ?thesis by (cases p) (simp_all add: deadlineStep_def claimedStep_def Let_def)
next
  case (Some src)
  with assms obtain d where "fst st src = Some d" by auto
  with Some show ?thesis by (simp add: deadlineStep_def claimedStep_def Let_def)
qed

lemma loopState_claimedStep:
  assumes "n < length PHASE_ORDER"
  shows "loopState s al (Suc n) = claimedStep al (loopState s al n) (PHASE_ORDER ! n)"
proof -
  have "deadlineStep al (loopState s al n) (PHASE_ORDER ! n)
        = claimedStep al (loopState s al n) (PHASE_ORDER ! n)"
    by (rule deadlineStep_claimedStep) (simp add: source_ready[OF assms])
  then show ?thesis by (simp add: loopState_Suc[OF assms])
qed

lemma loopState_shape:
  assumes n: "n < length PHASE_ORDER" and st: "loopState s al n = (dl, cur)"
    and sod: "startOfDay cur = cur"
  shows "loopState s al (Suc n) = (dl, cur)
         \<or> (\<exists>d cur'. loopState s al (Suc n) = (dl(PHASE_ORDER ! n \<mapsto> d), cur')
               \<and> cur \<le> d \<and> d \<le> cur' \<and> startOfDay cur' = cur')"
proof -
  define p where "p = PHASE_ORDER ! n"
  have nxt: "loopState s al (Suc n) = deadlineStep al (dl, cur) p"
    by (simp add: loopState_Suc[OF n] st p_def)
  show ?thesis
  proof (cases "MIRROR_PHASES p")
    case (Some src)
    have "dl src = Some cur"
      using source_ready[OF n, of src s al] Some by (simp add: st p_def)
    then have "loopState s al (Suc n) = (dl(p \<mapsto> cur), cur)"
      by (simp add: nxt deadlineStep_mirror[OF Some])
    then show ?thesis using sod by (intro disjI2 exI[of _ cur]) (simp add: p_def)
  next
    case None
    show ?thesis
    proof (cases "p = wayleave \<and> al p = 0")
      case True
      then have pw: "p = wayleave" and z: "al wayleave = 0" by auto
      have "deadlineStep al (dl, cur) p = (dl, cur)"
        unfolding pw using z by (rule deadlineStep_skip[of al])
      then show ?thesis by (simp add: nxt)
    next
      case False
      define d where "d = addBusinessDays cur (al p)"
      have "loopState s al (Suc n) = (dl(p \<mapsto> d), d)"
        using False by (simp add: nxt deadlineStep_plain[OF None] d_def)
      moreover have "cur \<le> d"
        using addBusinessDays_ge[of cur "al p"] by (simp add: d_def sod)
      moreover have "startOfDay d = d"
        by (simp add: d_def addBusinessDays_startOfDay)
      ultimately show ?thesis by (auto simp: p_def)
    qed
  qed
qed


lemma loopState_invariant:
  "n \<le> length PHASE_ORDER \<Longrightarrow>
     startOfDay (snd (loopState s al n)) = snd (loopState s al n)
   \<and> startOfDay s \<le> snd (loopState s al n)
   \<and> (\<forall>p d. fst (loopState s al n) p = Some d
          \<longrightarrow> startOfDay s \<le> d \<and> d \<le> snd (loopState s al n))
   \<and> (\<forall>p d. fst (loopState s al n) p = Some d \<longrightarrow> (\<exists>i<n. p = PHASE_ORDER ! i))
   \<and> (\<forall>i j di dj. i \<le> j \<and> j < n
          \<and> fst (loopState s al n) (PHASE_ORDER ! i) = Some di
          \<and> fst (loopState s al n) (PHASE_ORDER ! j) = Some dj \<longrightarrow> di \<le> dj)"
proof (induction n)
  case 0
  show ?case by (simp add: loopState_0 startOfDay_idem)
next
  case (Suc n)
  then have n: "n < length PHASE_ORDER" by simp
  obtain dl cur where st: "loopState s al n = (dl, cur)" by (cases "loopState s al n")
  from Suc.IH n have sod: "startOfDay cur = cur" and lo: "startOfDay s \<le> cur"
    and bnd: "\<And>p d. dl p = Some d \<Longrightarrow> startOfDay s \<le> d \<and> d \<le> cur"
    and keys: "\<And>p d. dl p = Some d \<Longrightarrow> \<exists>i<n. p = PHASE_ORDER ! i"
    and ord: "\<And>i j di dj. i \<le> j \<Longrightarrow> j < n \<Longrightarrow> dl (PHASE_ORDER ! i) = Some di
                \<Longrightarrow> dl (PHASE_ORDER ! j) = Some dj \<Longrightarrow> di \<le> dj"
    by (simp_all add: st)
  have earlier: "PHASE_ORDER ! i \<noteq> PHASE_ORDER ! n" if "i < n" for i
    using that n distinct_PHASE_ORDER by (simp add: nth_eq_iff_index_eq)
  have fresh: "dl (PHASE_ORDER ! n) = None"
  proof (cases "dl (PHASE_ORDER ! n)")
    case (Some x)
    from keys[OF this] obtain i where "i < n" "PHASE_ORDER ! n = PHASE_ORDER ! i" by blast
    with earlier[of i] show ?thesis by metis
  qed simp
  from loopState_shape[OF n st sod] show ?case
  proof
    assume same: "loopState s al (Suc n) = (dl, cur)"
    have k': "\<exists>i<Suc n. p = PHASE_ORDER ! i" if "dl p = Some d" for p d
      using keys[OF that] less_Suc_eq by auto
    have o': "di \<le> dj" if "i \<le> j" "j < Suc n" "dl (PHASE_ORDER ! i) = Some di"
      "dl (PHASE_ORDER ! j) = Some dj" for i j di dj
    proof (cases "j < n")
      case True
      with that ord show ?thesis by blast
    next
      case False
      with that(2) have "j = n" by simp
      with that(4) fresh show ?thesis by simp
    qed
    show ?thesis
      unfolding same fst_conv snd_conv using sod lo bnd k' o' by blast
  next
    assume "\<exists>d cur'. loopState s al (Suc n) = (dl(PHASE_ORDER ! n \<mapsto> d), cur')
               \<and> cur \<le> d \<and> d \<le> cur' \<and> startOfDay cur' = cur'"
    then obtain d cur' where nxt: "loopState s al (Suc n) = (dl(PHASE_ORDER ! n \<mapsto> d), cur')"
      and d: "cur \<le> d" "d \<le> cur'" and sod': "startOfDay cur' = cur'" by blast
    define dl' where "dl' = dl(PHASE_ORDER ! n \<mapsto> d)"
    have lo': "startOfDay s \<le> cur'" using lo d by simp
    have b': "startOfDay s \<le> x \<and> x \<le> cur'" if "dl' p = Some x" for p x
    proof (cases "p = PHASE_ORDER ! n")
      case True
      with that have "x = d" by (simp add: dl'_def)
      with lo d show ?thesis by simp
    next
      case False
      with that have "dl p = Some x" by (simp add: dl'_def)
      from bnd[OF this] d show ?thesis by simp
    qed
    have k': "\<exists>i<Suc n. p = PHASE_ORDER ! i" if "dl' p = Some x" for p x
    proof (cases "p = PHASE_ORDER ! n")
      case True
      then show ?thesis by blast
    next
      case False
      with that have "dl p = Some x" by (simp add: dl'_def)
      from keys[OF this] less_Suc_eq show ?thesis by auto
    qed
    have o': "di \<le> dj" if "i \<le> j" "j < Suc n" "dl' (PHASE_ORDER ! i) = Some di"
      "dl' (PHASE_ORDER ! j) = Some dj" for i j di dj
    proof (cases "j < n")
      case True
      with that(1) have "i < n" by simp
      with True that(3,4) earlier have "dl (PHASE_ORDER ! i) = Some di" "dl (PHASE_ORDER ! j) = Some dj"
        by (simp_all add: dl'_def)
      with that(1) True ord show ?thesis by blast
    next
      case False
      with that(2) have j: "j = n" by simp
      with that(4) have dj: "dj = d" by (simp add: dl'_def)
      show ?thesis
      proof (cases "i = n")
        case True
        with that(3) dj show ?thesis by (simp add: dl'_def)
      next
        case False
        with that(1) j have i: "i < n" by simp
        with that(3) earlier have "dl (PHASE_ORDER ! i) = Some di" by (simp add: dl'_def)
        from bnd[OF this] d dj show ?thesis by simp
      qed
    qed
    show ?thesis
      unfolding nxt dl'_def[symmetric] fst_conv snd_conv using sod' lo' b' k' o' by blast
  qed
qed



lemma DEFAULT_ALLOWED_DAYS_nonneg: "0 \<le> DEFAULT_ALLOWED_DAYS p"
  by (cases p) simp_all

text \<open>
  Claim C1. For every anchor date and every duration table, \<^verbatim>\<open>calculatePhaseDeadlines\<close> iterates
  the phases in the fixed \<^verbatim>\<open>PHASE_ORDER\<close>. The cursor starts equal to the start of day of the anchor
  date and the table starts empty. In every iteration the state changes as the specification
  says (\<open>claimedStep\<close>): a mirror phase whose source already has a deadline receives that deadline
  and the cursor does not advance; the wayleave phase with \<^verbatim>\<open>allowedDays == 0\<close> receives no
  deadline and the cursor does not advance; every other phase receives
  \<^verbatim>\<open>addBusinessDays(cursor, allowedDays)\<close> and the cursor advances to that deadline. The result is
  the table after the twelfth iteration.
\<close>

theorem calculatePhaseDeadlines_iteration:
  "loopState s al 0 = (Map.empty, startOfDay s)
   \<and> (\<forall>n < length PHASE_ORDER.
          loopState s al (Suc n) = claimedStep al (loopState s al n) (PHASE_ORDER ! n))
   \<and> calculatePhaseDeadlines s al = fst (loopState s al (length PHASE_ORDER))"
  using loopState_0[of s al] loopState_claimedStep[of _ s al]
    calculatePhaseDeadlines_loopState[of s al] by blast

text \<open>
  The anchor is 01:00 on Thursday 1 January 1970, with the short table. Planning (iteration 0) is
  due on 2 January; wayleave (iteration 2) gets no deadline and leaves the cursor at funding's
  deadline, 6 January; fqa (iteration 7) gets build's deadline, 13 January, and leaves the cursor
  there.
\<close>

theorem calculatePhaseDeadlines_iteration_witness:
  "snd (loopState 3600000 shortDays 0) = 0
   \<and> snd (claimedStep shortDays (loopState 3600000 shortDays 0) (PHASE_ORDER ! 0)) = 86400000
   \<and> fst (claimedStep shortDays (loopState 3600000 shortDays 2) (PHASE_ORDER ! 2)) wayleave = None
   \<and> snd (claimedStep shortDays (loopState 3600000 shortDays 2) (PHASE_ORDER ! 2)) = 432000000
   \<and> fst (claimedStep shortDays (loopState 3600000 shortDays 7) (PHASE_ORDER ! 7)) fqa
       = Some 1036800000
   \<and> snd (claimedStep shortDays (loopState 3600000 shortDays 7) (PHASE_ORDER ! 7)) = 1036800000
   \<and> calculatePhaseDeadlines 3600000 shortDays = fst (loopState 3600000 shortDays 12)"
proof -
  define al where "al = shortDays"
  note T = calculatePhaseDeadlines_iteration[of 3600000 al]
  have s0: "startOfDay 3600000 = 0" by code_simp
  have st: "\<And>n. n < 12 \<Longrightarrow>
      claimedStep al (loopState 3600000 al n) (PHASE_ORDER ! n) = loopState 3600000 al (Suc n)"
    using T by (simp add: length_PHASE_ORDER)
  have v0: "snd (loopState 3600000 al (Suc 0)) = 86400000"
    unfolding al_def by code_simp
  have v2: "fst (loopState 3600000 al (Suc 2)) wayleave = None"
    "snd (loopState 3600000 al (Suc 2)) = 432000000"
    unfolding al_def by code_simp+
  have v7: "fst (loopState 3600000 al (Suc 7)) fqa = Some 1036800000"
    "snd (loopState 3600000 al (Suc 7)) = 1036800000"
    unfolding al_def by code_simp+
  have i0: "snd (loopState 3600000 al 0) = 0" using T s0 by simp
  have r: "calculatePhaseDeadlines 3600000 al = fst (loopState 3600000 al 12)"
    using T by (simp add: length_PHASE_ORDER)
  show ?thesis
    unfolding al_def[symmetric] st[of 0, simplified] st[of 2, simplified] st[of 7, simplified]
    using i0 v0 v2 v7 r by simp
qed

text \<open>
  Claim C2. After any recalculation the fqa phase's deadline equals the build phase's deadline
  and the com phase's deadline equals the rfa phase's deadline: for \<^verbatim>\<open>calculatePhaseDeadlines\<close>
  on any inputs (where all four deadlines are present), and for
  \<^verbatim>\<open>calculatePhaseDeadlinesFromDeadline\<close> on any changed phase and new deadline, provided the
  current deadlines passed in already satisfy the two equalities.
\<close>

theorem mirror_deadlines_equal:
  "(\<exists>d. calculatePhaseDeadlines s al build = Some d \<and> calculatePhaseDeadlines s al fqa = Some d)
   \<and> (\<exists>d. calculatePhaseDeadlines s al rfa = Some d \<and> calculatePhaseDeadlines s al com = Some d)
   \<and> (cur fqa = cur build \<and> cur com = cur rfa \<longrightarrow>
        calculatePhaseDeadlinesFromDeadline p D al cur fqa
          = calculatePhaseDeadlinesFromDeadline p D al cur build
        \<and> calculatePhaseDeadlinesFromDeadline p D al cur com
          = calculatePhaseDeadlinesFromDeadline p D al cur rfa)"
proof -
  have a: "\<exists>d. calculatePhaseDeadlines s al build = Some d \<and> calculatePhaseDeadlines s al fqa = Some d"
    by (simp add: calculatePhaseDeadlines_def PHASE_ORDER_def deadlineStep_def Let_def)
  have b: "\<exists>d. calculatePhaseDeadlines s al rfa = Some d \<and> calculatePhaseDeadlines s al com = Some d"
    by (simp add: calculatePhaseDeadlines_def PHASE_ORDER_def deadlineStep_def Let_def)
  have c: "calculatePhaseDeadlinesFromDeadline p D al cur fqa
             = calculatePhaseDeadlinesFromDeadline p D al cur build"
    if "cur fqa = cur build"
    using that by (cases p)
      (simp_all add: calculatePhaseDeadlinesFromDeadline_def PHASE_ORDER_def deadlineStep_def Let_def)
  have d: "calculatePhaseDeadlinesFromDeadline p D al cur com
             = calculatePhaseDeadlinesFromDeadline p D al cur rfa"
    if "cur com = cur rfa"
    using that by (cases p)
      (simp_all add: calculatePhaseDeadlinesFromDeadline_def PHASE_ORDER_def deadlineStep_def Let_def)
  from a b c d show ?thesis by blast
qed

text \<open>
  With the short table and the anchor at 01:00 on 1 January 1970, build and fqa are due on
  13 January and rfa and com on 19 January. Overriding ecc at 10:00 on 1 January, with build and
  fqa both due on 1 January before and rfa and com both absent, leaves build and fqa equal and
  makes rfa and com both due on 6 January.
\<close>

theorem mirror_deadlines_equal_witness:
  "calculatePhaseDeadlines 3600000 shortDays build = Some 1036800000
   \<and> calculatePhaseDeadlines 3600000 shortDays fqa = Some 1036800000
   \<and> calculatePhaseDeadlines 3600000 shortDays rfa = Some 1555200000
   \<and> calculatePhaseDeadlines 3600000 shortDays com = Some 1555200000
   \<and> (Map.empty(build \<mapsto> 0, fqa \<mapsto> 0)) fqa = (Map.empty(build \<mapsto> 0, fqa \<mapsto> (0::date))) build
   \<and> (Map.empty(build \<mapsto> 0, fqa \<mapsto> 0)) com = (Map.empty(build \<mapsto> 0, fqa \<mapsto> (0::date))) rfa
   \<and> calculatePhaseDeadlinesFromDeadline ecc 36000000 shortDays
         (Map.empty(build \<mapsto> 0, fqa \<mapsto> 0)) fqa = Some 0
   \<and> calculatePhaseDeadlinesFromDeadline ecc 36000000 shortDays
         (Map.empty(build \<mapsto> 0, fqa \<mapsto> 0)) build = Some 0
   \<and> calculatePhaseDeadlinesFromDeadline ecc 36000000 shortDays
         (Map.empty(build \<mapsto> 0, fqa \<mapsto> 0)) com = Some 432000000
   \<and> calculatePhaseDeadlinesFromDeadline ecc 36000000 shortDays
         (Map.empty(build \<mapsto> 0, fqa \<mapsto> 0)) rfa = Some 432000000"
proof -
  define cur :: deadlines where "cur = Map.empty(build \<mapsto> 0, fqa \<mapsto> 0)"
  define al where "al = shortDays"
  note T = mirror_deadlines_equal[where s = 3600000 and al = al and cur = cur and p = ecc
      and D = 36000000]
  have h: "cur fqa = cur build" "cur com = cur rfa" by (simp_all add: cur_def)
  have v1: "calculatePhaseDeadlines 3600000 al build = Some 1036800000"
    unfolding al_def by code_simp
  have v2: "calculatePhaseDeadlines 3600000 al rfa = Some 1555200000"
    unfolding al_def by code_simp
  have v3: "calculatePhaseDeadlinesFromDeadline ecc 36000000 al cur build = Some 0"
    unfolding cur_def al_def by code_simp
  have v4: "calculatePhaseDeadlinesFromDeadline ecc 36000000 al cur rfa
              = Some 432000000"
    unfolding cur_def al_def by code_simp
  from T h v1 v2 v3 v4 show ?thesis unfolding cur_def[symmetric] al_def[symmetric] by auto
qed

text \<open>
  Claim C4. For every duration table and every map of current deadlines,
  \<^verbatim>\<open>calculatePhaseDeadlinesFromDeadline\<close> with \<^verbatim>\<open>changedPhase = build\<close> and new deadline \<open>D\<close> returns
  a map in which the deadline of fqa is \<open>D\<close>, the deadline of ecc is
  \<^verbatim>\<open>addBusinessDays(D, allowedDays of ecc)\<close>, and planning, funding, wayleave, materials,
  announcement and kickoff keep exactly their entries of the current deadlines. A deadline is a
  calendar date held at the start of its day: the deadline of fqa (and of build) is the start of
  day of \<open>D\<close>, which is the same calendar day as \<open>D\<close>, and is \<open>D\<close> itself whenever \<open>D\<close> is such a
  date.
\<close>

theorem override_build_frame:
  "calculatePhaseDeadlinesFromDeadline build D al cur fqa = Some (startOfDay D)
   \<and> calculatePhaseDeadlinesFromDeadline build D al cur build = Some (startOfDay D)
   \<and> isSameDay (startOfDay D) D
   \<and> (startOfDay D = D \<longrightarrow> calculatePhaseDeadlinesFromDeadline build D al cur fqa = Some D)
   \<and> calculatePhaseDeadlinesFromDeadline build D al cur ecc = Some (addBusinessDays D (al ecc))
   \<and> calculatePhaseDeadlinesFromDeadline build D al cur planning = cur planning
   \<and> calculatePhaseDeadlinesFromDeadline build D al cur funding = cur funding
   \<and> calculatePhaseDeadlinesFromDeadline build D al cur wayleave = cur wayleave
   \<and> calculatePhaseDeadlinesFromDeadline build D al cur materials = cur materials
   \<and> calculatePhaseDeadlinesFromDeadline build D al cur announcement = cur announcement
   \<and> calculatePhaseDeadlinesFromDeadline build D al cur kickoff = cur kickoff"
  by (simp add: calculatePhaseDeadlinesFromDeadline_def PHASE_ORDER_def deadlineStep_def Let_def
      addBusinessDays_of_startOfDay isSameDay_def startOfDay_idem)

text \<open>
  Build is overridden to Monday 5 January 1970 with the default table: fqa is due on 5 January,
  ecc on 6 January, and planning and kickoff keep their entries. Overridden to 10:00 on
  1 January 1970, fqa is due on 1 January.
\<close>

theorem override_build_frame_witness:
  "startOfDay 345600000 = 345600000
   \<and> calculatePhaseDeadlinesFromDeadline build 345600000 DEFAULT_ALLOWED_DAYS
     (Map.empty(planning \<mapsto> 7, kickoff \<mapsto> 9)) fqa = Some 345600000
   \<and> calculatePhaseDeadlinesFromDeadline build 345600000 DEFAULT_ALLOWED_DAYS
     (Map.empty(planning \<mapsto> 7, kickoff \<mapsto> 9)) ecc = Some 432000000
   \<and> calculatePhaseDeadlinesFromDeadline build 345600000 DEFAULT_ALLOWED_DAYS
     (Map.empty(planning \<mapsto> 7, kickoff \<mapsto> 9)) planning = Some 7
   \<and> calculatePhaseDeadlinesFromDeadline build 345600000 DEFAULT_ALLOWED_DAYS
     (Map.empty(planning \<mapsto> 7, kickoff \<mapsto> 9)) kickoff = Some 9
   \<and> calculatePhaseDeadlinesFromDeadline build 345600000 DEFAULT_ALLOWED_DAYS
     (Map.empty(planning \<mapsto> 7, kickoff \<mapsto> 9)) wayleave = None
   \<and> calculatePhaseDeadlinesFromDeadline build 36000000 DEFAULT_ALLOWED_DAYS Map.empty fqa = Some 0
   \<and> isSameDay 0 36000000"
proof -
  have s0: "startOfDay 345600000 = 345600000" by code_simp
  have a1: "addBusinessDays 345600000 (DEFAULT_ALLOWED_DAYS ecc) = 432000000" by code_simp
  have s1: "startOfDay 36000000 = 0" by code_simp
  from override_build_frame[of 345600000 DEFAULT_ALLOWED_DAYS
      "Map.empty(planning \<mapsto> 7, kickoff \<mapsto> 9)"]
    override_build_frame[of 36000000 DEFAULT_ALLOWED_DAYS Map.empty]
  show ?thesis unfolding s0 a1 s1 by simp
qed












text \<open>
  Claim C9. For every anchor date and every duration table with non-negative entries, every
  deadline in the map returned by \<^verbatim>\<open>calculatePhaseDeadlines\<close> is at or after the start of day of the
  anchor date, and of two phases that both received a deadline, the one later in
  \<^verbatim>\<open>PHASE_ORDER\<close> has the later or equal deadline.
\<close>

theorem calculatePhaseDeadlines_monotone:
  assumes "\<forall>p. 0 \<le> al p"
  shows "(\<forall>p d. calculatePhaseDeadlines s al p = Some d \<longrightarrow> startOfDay s \<le> d)
    \<and> (\<forall>i j di dj. i \<le> j \<and> j < length PHASE_ORDER
          \<and> calculatePhaseDeadlines s al (PHASE_ORDER ! i) = Some di
          \<and> calculatePhaseDeadlines s al (PHASE_ORDER ! j) = Some dj \<longrightarrow> di \<le> dj)"
  using loopState_invariant[of "length PHASE_ORDER" s al]
  unfolding calculatePhaseDeadlines_loopState by blast

text \<open>
  With the short table and the anchor at 01:00 on 1 January 1970, planning is due on 2 January
  and build on 13 January.
\<close>

theorem calculatePhaseDeadlines_monotone_witness:
  "(\<forall>p. 0 \<le> shortDays p)
   \<and> calculatePhaseDeadlines 3600000 shortDays (PHASE_ORDER ! 0) = Some 86400000
   \<and> calculatePhaseDeadlines 3600000 shortDays (PHASE_ORDER ! 6) = Some 1036800000
   \<and> startOfDay 3600000 \<le> 86400000 \<and> (86400000::date) \<le> 1036800000"
proof -
  define al where "al = shortDays"
  have h: "\<forall>p. 0 \<le> al p" unfolding al_def by (simp add: DEFAULT_ALLOWED_DAYS_nonneg)
  have v0: "calculatePhaseDeadlines 3600000 al (PHASE_ORDER ! 0) = Some 86400000"
    unfolding al_def by code_simp
  have v6: "calculatePhaseDeadlines 3600000 al (PHASE_ORDER ! 6) = Some 1036800000"
    unfolding al_def by code_simp
  note T = calculatePhaseDeadlines_monotone[OF h, of 3600000]
  from T v0 have a: "startOfDay 3600000 \<le> 86400000" by blast
  have "(0::nat) \<le> 6 \<and> (6::nat) < length PHASE_ORDER" by (simp add: length_PHASE_ORDER)
  with T v0 v6 have b: "(86400000::date) \<le> 1036800000" by blast
  from h v0 v6 a b show ?thesis unfolding al_def by blast
qed

section \<open>Holidays that fall on a Sunday\<close>

lemma startOfDay_times: "startOfDay (k * msPerDay) = k * msPerDay"
  by (simp add: startOfDay_def Day_def msPerDay_def)

lemma Day_times: "Day (k * msPerDay) = k"
  by (simp add: Day_def msPerDay_def)

lemma startOfDay_newDate: "startOfDay (newDate y m d) = newDate y m d"
  by (simp add: newDate_def Let_def startOfDay_times)

lemma Day_newDate:
  "0 \<le> m \<Longrightarrow> m \<le> 11 \<Longrightarrow>
   Day (newDate y m d)
     = DayFromYear (MakeFullYear y) + daysBeforeMonth (MakeFullYear y) m + d - 1"
  by (simp add: newDate_def Let_def Day_times div_pos_pos_trivial mod_pos_pos_trivial)

lemma newDate_MakeFullYear: "newDate (MakeFullYear y) m d = newDate y m d"
  by (simp add: newDate_def MakeFullYear_def)

lemma getDay_addDays: "getDay (addDays t k) = (getDay t + k) mod 7"
  by (simp add: getDay_def Day_addDays mod_simps algebra_simps)

lemma observed_eq:
  "observed y (m, d)
     = (if getDay (newDate y m d) = 0 then addDays (newDate y m d) 1 else newDate y m d)"
  by (simp add: observed_def Let_def startOfDay_addDays startOfDay_newDate)









section \<open>Christmas on a Sunday\<close>

lemma smod_bounds:
  fixes x k :: int
  assumes "0 < k"
  shows "- k < x smod k" and "x smod k < k"
proof -
  define r where "r = \<bar>x\<bar> mod k"
  have m: "0 \<le> r" "r < k" using assms by (simp_all add: r_def)
  have e: "x smod k = sgn x * r"
    using assms by (simp add: signed_modulo_int_def r_def)
  have s: "sgn x = - 1 \<or> sgn x = 0 \<or> sgn x = 1"
    by (cases "x < 0"; cases "x = 0") simp_all
  show "- k < x smod k" unfolding e using m assms s by auto
  show "x smod k < k" unfolding e using m assms s by auto
qed

lemma smod_nonneg: "0 \<le> x \<Longrightarrow> 0 < k \<Longrightarrow> (x::int) smod k = x mod k"
  by (cases "x = 0") (simp_all add: signed_modulo_int_def)

lemma daysBeforeMonth_le: "0 \<le> m \<Longrightarrow> m \<le> 4 \<Longrightarrow> daysBeforeMonth y m \<le> 121"
  by (simp add: daysBeforeMonth_def Let_def)

lemma easter_upper: "Day (getEasterSunday y) \<le> DayFromYear (MakeFullYear y) + 151"
proof -
  define a where "a = y smod 19"
  define b where "b = y div 100"
  define c where "c = y smod 100"
  define h where "h = (19 * a + b - b div 4 - (b - (b + 8) div 25 + 1) div 3 + 15) smod 30"
  define l where "l = (32 + 2 * (b smod 4) + 2 * (c div 4) - h - c smod 4) smod 7"
  define t where "t = a + 11 * h + 22 * l"
  define m where "m = t div 451"
  define n where "n = h + l - 7 * m + 114"
  have ab: "- 19 < a" "a < 19" unfolding a_def by (simp_all add: smod_bounds)
  have hb: "- 30 < h" "h < 30" unfolding h_def by (simp_all add: smod_bounds)
  have lb: "- 7 < l" "l < 7" unfolding l_def by (simp_all add: smod_bounds)
  have tb: "- 469 \<le> t" "t \<le> 469" unfolding t_def using ab hb lb by simp_all
  have "(- 469) div 451 \<le> t div 451" using tb(1) by (intro zdiv_mono1) simp_all
  then have m1: "- 2 \<le> m" by (simp add: m_def)
  have "t div 451 \<le> 469 div 451" using tb(2) by (intro zdiv_mono1) simp_all
  then have m2: "m \<le> 1" by (simp add: m_def)
  have nb: "72 \<le> n" "n \<le> 163" unfolding n_def using hb lb m1 m2 by simp_all
  have "72 div 31 \<le> n div 31" using nb(1) by (intro zdiv_mono1) simp_all
  then have mo1: "2 \<le> n div 31" by simp
  have "n div 31 \<le> 163 div 31" using nb(2) by (intro zdiv_mono1) simp_all
  then have mo2: "n div 31 \<le> 5" by simp
  have dy: "n smod 31 + 1 \<le> 31"
    using nb by (simp add: smod_nonneg)
  have e: "getEasterSunday y = newDate y (n div 31 - 1) (n smod 31 + 1)"
    by (simp add: getEasterSunday_def Let_def n_def m_def t_def l_def h_def c_def b_def a_def)
  have "Day (getEasterSunday y)
        = DayFromYear (MakeFullYear y) + daysBeforeMonth (MakeFullYear y) (n div 31 - 1)
          + (n smod 31 + 1) - 1"
    unfolding e using mo1 mo2 by (intro Day_newDate) simp_all
  also have "\<dots> \<le> DayFromYear (MakeFullYear y) + 121 + 31 - 1"
    using daysBeforeMonth_le[of "n div 31 - 1" "MakeFullYear y"] mo1 mo2 dy by simp
  finally show ?thesis by simp
qed


lemma holiday_startOfDay: "h \<in> set (getSAPublicHolidays y) \<Longrightarrow> startOfDay h = h"
  by (auto simp: getSAPublicHolidays_def Let_def observed_def startOfDay_idem)

lemma Day_observed_le: "Day (observed y (m, d)) \<le> Day (newDate y m d) + 1"
  by (simp add: observed_eq Day_addDays)

lemma DaysInYear_leap: "DaysInYear y = 365 + (if DaysInYear y = 366 then 1 else 0)"
  by (simp add: DaysInYear_def)

lemma Day_december:
  "Day (newDate y 11 d)
     = DayFromYear (MakeFullYear y) + 333 + (if DaysInYear (MakeFullYear y) = 366 then 1 else 0) + d"
  by (simp add: Day_newDate daysBeforeMonth_def Let_def)

lemma early_fixed_holidays:
  assumes "(m, d) \<in> set (take 8 fixedHolidays)"
  shows "Day (observed y (m, d)) < Day (newDate y 11 26)"
proof -
  have "0 \<le> m \<and> m \<le> 11 \<and> daysBeforeMonth (MakeFullYear y) m + d - 1
          \<le> 349 + (if DaysInYear (MakeFullYear y) = 366 then 1 else 0)"
    using assms by (auto simp: fixedHolidays_def daysBeforeMonth_def Let_def)
  then have "Day (newDate y m d)
          \<le> DayFromYear (MakeFullYear y) + 349 + (if DaysInYear (MakeFullYear y) = 366 then 1 else 0)"
    by (simp add: Day_newDate)
  with Day_observed_le[of y m d] show ?thesis by (simp add: Day_december)
qed

lemma easter_holidays_early:
  "Day (startOfDay (getGoodFriday y)) < Day (newDate y 11 26)"
  "Day (startOfDay (getFamilyDay y)) < Day (newDate y 11 26)"
  using easter_upper[of y]
  by (simp_all add: getGoodFriday_def getFamilyDay_def Let_def Day_startOfDay Day_addDays
      Day_december)

lemma getSAPublicHolidays_parts:
  "getSAPublicHolidays y
     = map (observed y) (take 8 fixedHolidays)
       @ [observed y (11, 25), observed y (11, 26),
          startOfDay (getGoodFriday y), startOfDay (getFamilyDay y)]"
  by (simp add: getSAPublicHolidays_def Let_def fixedHolidays_def)

lemma newDate_next: "newDate y m (d + 1) = addDays (newDate y m d) 1"
  by (simp add: newDate_def Let_def addDays_def algebra_simps)

lemma christmas_sunday_entries:
  assumes "getDay (newDate y 11 25) = 0"
  shows "observed y (11, 25) = newDate y 11 26" and "observed y (11, 26) = newDate y 11 26"
proof -
  have n26: "newDate y 11 26 = addDays (newDate y 11 25) 1"
    using newDate_next[of y 11 25] by simp
  show "observed y (11, 25) = newDate y 11 26"
    using assms by (simp add: observed_eq n26)
  have "getDay (newDate y 11 26) = 1"
    using assms by (simp add: n26 getDay_addDays)
  then show "observed y (11, 26) = newDate y 11 26"
    by (simp add: observed_eq)
qed

lemma early_not_late:
  assumes "Day (newDate y 11 26) \<le> Day x"
  shows "x \<notin> set (map (observed y) (take 8 fixedHolidays))"
    and "startOfDay (getGoodFriday y) \<noteq> x" and "startOfDay (getFamilyDay y) \<noteq> x"
proof -
  show "x \<notin> set (map (observed y) (take 8 fixedHolidays))"
  proof
    assume "x \<in> set (map (observed y) (take 8 fixedHolidays))"
    then obtain m d where "(m, d) \<in> set (take 8 fixedHolidays)" "x = observed y (m, d)"
      by auto
    with early_fixed_holidays[of m d y] assms show False by simp
  qed
  show "startOfDay (getGoodFriday y) \<noteq> x" "startOfDay (getFamilyDay y) \<noteq> x"
    using easter_holidays_early[of y] assms by auto
qed

lemma christmas_sunday_count:
  assumes "getDay (newDate y 11 25) = 0"
  shows "count_list (getSAPublicHolidays y) (newDate y 11 26) = 2"
proof -
  have "count_list (map (observed y) (take 8 fixedHolidays)) (newDate y 11 26) = 0"
    using early_not_late(1)[of y "newDate y 11 26"] by (simp add: count_list_0_iff)
  then show ?thesis
    using early_not_late(2,3)[of y "newDate y 11 26"]
    by (simp add: getSAPublicHolidays_parts christmas_sunday_entries[OF assms])
qed

lemma christmas_sunday_27:
  assumes "getDay (newDate y 11 25) = 0"
  shows "newDate y 11 27 \<notin> set (getSAPublicHolidays y)"
proof -
  have le: "Day (newDate y 11 26) \<le> Day (newDate y 11 27)" by (simp add: Day_december)
  have ne: "newDate y 11 26 \<noteq> newDate y 11 27"
  proof
    assume "newDate y 11 26 = newDate y 11 27"
    then have "Day (newDate y 11 26) = Day (newDate y 11 27)" by simp
    then show False by (simp add: Day_december)
  qed
  show ?thesis
    using early_not_late[OF le] ne
    by (simp add: getSAPublicHolidays_parts christmas_sunday_entries[OF assms])
qed

lemma getYear_december: "1 \<le> d \<Longrightarrow> d \<le> 31 \<Longrightarrow> getYear (newDate y 11 d) = MakeFullYear y"
proof -
  assume d: "1 \<le> d" "d \<le> 31"
  have nxt: "DayFromYear (MakeFullYear y + 1)
        = DayFromYear (MakeFullYear y) + 365
          + (if DaysInYear (MakeFullYear y) = 366 then 1 else 0)"
    using DayFromYear_Suc[of "MakeFullYear y"] DaysInYear_leap[of "MakeFullYear y"] by simp
  have "YearFromDay (Day (newDate y 11 d)) = MakeFullYear y"
    by (rule YearFromDay_unique) (use d in \<open>simp_all add: Day_december nxt\<close>)
  then show ?thesis by (simp add: getYear_def)
qed

lemma christmas_sunday_business_day:
  assumes "getDay (newDate y 11 25) = 0"
  shows "isBusinessDay (newDate y 11 27)" and "getDay (newDate y 11 27) = 2"
proof -
  define Y where "Y = MakeFullYear y"
  define x where "x = newDate y 11 27"
  have n27: "x = addDays (newDate y 11 25) 2"
    using newDate_next[of y 11 25] newDate_next[of y 11 26]
    by (simp add: x_def addDays_addDays)
  show wd: "getDay (newDate y 11 27) = 2"
    using assms by (simp add: n27[unfolded x_def] getDay_addDays)
  have yr: "getYear x = Y" unfolding x_def Y_def by (rule getYear_december) simp_all
  have sun: "getDay (newDate Y 11 25) = 0"
    using assms by (simp add: Y_def newDate_MakeFullYear)
  have notin: "x \<notin> set (getSAPublicHolidays Y)"
    using christmas_sunday_27[OF sun] by (simp add: Y_def newDate_MakeFullYear x_def)
  have "\<not> isPublicHoliday x"
  proof
    assume "isPublicHoliday x"
    then obtain h where h: "h \<in> set (getSAPublicHolidays Y)" "Day h = Day x"
      using yr by (auto simp: isPublicHoliday_iff getYear_def)
    have "h = startOfDay h" using holiday_startOfDay[OF h(1)] by simp
    also have "\<dots> = startOfDay x" using h(2) by (simp add: startOfDay_eq_iff)
    also have "\<dots> = x" by (simp add: x_def startOfDay_newDate)
    finally show False using h(1) notin by simp
  qed
  moreover have "\<not> isWeekend x" using wd by (simp add: isWeekend_def x_def)
  ultimately show "isBusinessDay (newDate y 11 27)" by (simp add: isBusinessDay_def x_def)
qed

text \<open>
  Claim C10. For every year in which 25 December falls on a Sunday, the list returned by
  \<^verbatim>\<open>getSAPublicHolidays\<close> contains 26 December exactly twice (the moved Christmas Day and the Day
  of Goodwill are both Monday 26 December) and does not contain 27 December; Tuesday 27 December
  of such a year is a business day.
\<close>

theorem christmas_on_sunday:
  assumes "getDay (newDate y 11 25) = 0"
  shows "count_list (getSAPublicHolidays y) (newDate y 11 26) = 2
    \<and> observed y (11, 25) = newDate y 11 26 \<and> observed y (11, 26) = newDate y 11 26
    \<and> newDate y 11 27 \<notin> set (getSAPublicHolidays y)
    \<and> getDay (newDate y 11 27) = 2
    \<and> isBusinessDay (newDate y 11 27)"
  using christmas_sunday_count[OF assms] christmas_sunday_entries[OF assms]
    christmas_sunday_27[OF assms] christmas_sunday_business_day[OF assms] by simp

text \<open>25 December 2022 is a Sunday.\<close>

theorem christmas_on_sunday_witness:
  "getDay (newDate 2022 11 25) = 0
   \<and> newDate 2022 11 26 = 1672012800000
   \<and> count_list (getSAPublicHolidays 2022) 1672012800000 = 2
   \<and> newDate 2022 11 27 \<notin> set (getSAPublicHolidays 2022)
   \<and> isBusinessDay (newDate 2022 11 27)"
proof -
  have h: "getDay (newDate 2022 11 25) = 0" by code_simp
  have v: "newDate 2022 11 26 = 1672012800000" by code_simp
  from christmas_on_sunday[OF h] h v show ?thesis by simp
qed

end
